theory Spec2Isabelle
  imports Main "HOL-Library.Word"
begin

section \<open>The bounded object pool of go-sync (pool.go)\<close>

text \<open>
  The pool of \<^verbatim>\<open>pool.go\<close> is built from two library objects: a
  \<^verbatim>\<open>semaphore.Weighted\<close> (golang.org/x/sync) as admission gate and a
  \<^verbatim>\<open>sync.Pool\<close> as idle cache. Both are modelled by their state and by
  what one call does to it. A call is taken at its linearisation point, so an
  interleaving of calls from several goroutines is a list of calls, each with
  the processor it runs on. A call either returns, or waits on the gate, or
  panics; a panic leaves the state that the call had reached.
\<close>

datatype ('r, 's) outcome = Returns 'r | Blocks | Panics 's

subsection \<open>context.Context\<close>

text \<open>
  What a call sees of its context: \<open>Live\<close> is a context that is not done while the
  call runs, \<open>Done\<close> one that is cancelled or expired before the call, and
  \<open>Expiring\<close> one that is not done at the call and becomes done while the call
  waits for the gate.
\<close>

datatype ctx = Live | Expiring | Done

subsection \<open>semaphore.Weighted\<close>

text \<open>
  \<^verbatim>\<open>NewWeighted(n)\<close> gives a semaphore of size \<open>n\<close> with nothing held
  (\<open>cur = 0\<close>). \<^verbatim>\<open>Acquire(ctx, 1)\<close> takes one unit when one is free; when none
  is free it waits, and when the context is or becomes done it returns
  \<^verbatim>\<open>ctx.Err()\<close> and leaves the semaphore unchanged. Releases of the library
  differ on a context that is done at the call while a unit is free: the older
  ones acquire (\<open>Legacy\<close>), the newer ones look at the context first and fail
  (\<open>DoneFirst\<close>). \<^verbatim>\<open>Release(1)\<close> subtracts one from \<open>cur\<close>, and panics with
  "semaphore: released more than held" when \<open>cur\<close> is then negative; the
  subtraction stays.
\<close>

record Weighted =
  size_w :: int
  cur :: int

datatype semver = Legacy | DoneFirst

datatype acquired = Acquired Weighted | Failed | Waits

datatype released = Released Weighted | Over_released Weighted

definition NewWeighted :: "int \<Rightarrow> Weighted" where
  "NewWeighted n = \<lparr>size_w = n, cur = 0\<rparr>"

definition Acquire :: "semver \<Rightarrow> ctx \<Rightarrow> Weighted \<Rightarrow> acquired" where
  "Acquire v c s =
     (if v = DoneFirst \<and> c = Done then Failed
      else if size_w s - cur s \<ge> 1 then Acquired (s\<lparr>cur := cur s + 1\<rparr>)
      else if c = Live then Waits
      else Failed)"

definition Release :: "Weighted \<Rightarrow> released" where
  "Release s =
     (let s' = s\<lparr>cur := cur s - 1\<rparr>
      in if cur s' < 0 then Over_released s' else Released s')"

subsection \<open>The runtime\<close>

text \<open>
  What the program is linked and run with: the release of the semaphore
  library and \<^verbatim>\<open>GOMAXPROCS\<close>, the number of processors, which is at least 1
  and does not change. A call names the processor it runs on by a number
  \<open>k\<close>, which stands for processor \<open>k mod GOMAXPROCS\<close>.
\<close>

record env =
  semaphore :: semver
  more_procs :: nat

definition gomaxprocs :: "env \<Rightarrow> nat" where
  "gomaxprocs E = Suc (more_procs E)"

definition pin :: "env \<Rightarrow> nat \<Rightarrow> nat" where
  "pin E k = k mod gomaxprocs E"

subsection \<open>sync.Pool\<close>

text \<open>
  A \<^verbatim>\<open>sync.Pool\<close> keeps a \<^verbatim>\<open>poolLocal\<close> for every processor: a private slot,
  which only that processor reads and writes, and a shared chain, whose head
  that processor pushes and pops and whose tail any processor may pop. At the
  start of a garbage collection the locals become the victim cache and the
  locals are empty again; the victim cache of the collection before is
  dropped. The array of locals has \<^verbatim>\<open>GOMAXPROCS\<close> entries from the first call on.

  \<^verbatim>\<open>Put(x)\<close> drops a nil interface; otherwise it fills the private slot of its
  processor when that is empty and pushes onto its chain otherwise. \<^verbatim>\<open>Get\<close>
  empties the private slot of its processor, else pops the head of its chain,
  else takes the slow path: the tails of the chains of the other processors,
  then the victim cache. When all that gives nothing it calls \<^verbatim>\<open>New\<close>. (This is
  the pool of a program built without the race detector, under which \<^verbatim>\<open>Put\<close>
  drops items at random.) \<open>New\<close> holds the factory that \<^verbatim>\<open>SetFactory\<close> wrapped. A factory is a Go closure; it
  is modelled by the object that its k-th invocation returns, and it is taken
  to return a pointer of type T that has no finalizer yet, as the source's
  comment asks.

  An item is a value of \<open>'a\<close>; the argument of \<^verbatim>\<open>Put\<close> is an \<open>'a option\<close>, where
  \<open>None\<close> is the nil interface (which a T that is an interface type has, and a
  T that is a pointer type has not).
\<close>

record 'a poolLocal =
  private_l :: "'a option"
  shared_l :: "'a list"

record 'a sync_Pool =
  locals :: "nat \<Rightarrow> 'a poolLocal"
  victim :: "nat \<Rightarrow> 'a poolLocal"
  victimSize :: nat
  New :: "(nat \<Rightarrow> 'a) option"

definition no_locals :: "nat \<Rightarrow> 'a poolLocal" where
  "no_locals = (\<lambda>q. \<lparr>private_l = None, shared_l = []\<rparr>)"

definition Put :: "env \<Rightarrow> nat \<Rightarrow> 'a option \<Rightarrow> 'a sync_Pool \<Rightarrow> 'a sync_Pool" where
  "Put E k x l =
     (case x of
        None \<Rightarrow> l
      | Some y \<Rightarrow>
          (let pid = pin E k; loc = locals l pid
           in case private_l loc of
                None \<Rightarrow> l\<lparr>locals := (locals l)(pid := loc\<lparr>private_l := Some y\<rparr>)\<rparr>
              | Some z \<Rightarrow> l\<lparr>locals := (locals l)(pid := loc\<lparr>shared_l := y # shared_l loc\<rparr>)\<rparr>))"

text \<open>
  The loops of \<^verbatim>\<open>getSlow\<close>: pop the tail of the first chain that is not empty,
  going through the processors in the order given.
\<close>

fun steal :: "nat list \<Rightarrow> (nat \<Rightarrow> 'a poolLocal) \<Rightarrow> 'a option \<times> (nat \<Rightarrow> 'a poolLocal)" where
  "steal [] ls = (None, ls)"
| "steal (q # qs) ls =
     (if shared_l (ls q) = [] then steal qs ls
      else (Some (last (shared_l (ls q))),
            ls(q := (ls q)\<lparr>shared_l := butlast (shared_l (ls q))\<rparr>)))"

definition getSlow :: "env \<Rightarrow> nat \<Rightarrow> 'a sync_Pool \<Rightarrow> 'a option \<times> 'a sync_Pool" where
  "getSlow E pid l =
     (let size = gomaxprocs E
      in case steal (map (\<lambda>i. (pid + i + 1) mod size) [0..<size]) (locals l) of
           (Some x, ls) \<Rightarrow> (Some x, l\<lparr>locals := ls\<rparr>)
         | (None, ls) \<Rightarrow>
             (let size = victimSize l
              in if pid \<ge> size then (None, l)
                 else (case private_l (victim l pid) of
                         Some x \<Rightarrow>
                           (Some x, l\<lparr>victim := (victim l)(pid := (victim l pid)\<lparr>private_l := None\<rparr>)\<rparr>)
                       | None \<Rightarrow>
                           (case steal (map (\<lambda>i. (pid + i) mod size) [0..<size]) (victim l) of
                              (Some x, vs) \<Rightarrow> (Some x, l\<lparr>victim := vs\<rparr>)
                            | (None, vs) \<Rightarrow> (None, l\<lparr>victimSize := 0\<rparr>)))))"

text \<open>\<^verbatim>\<open>Get\<close> up to the call of \<^verbatim>\<open>New\<close>: \<open>None\<close> when the caches give nothing.\<close>

definition Get_cached :: "env \<Rightarrow> nat \<Rightarrow> 'a sync_Pool \<Rightarrow> 'a option \<times> 'a sync_Pool" where
  "Get_cached E k l =
     (let pid = pin E k; loc = locals l pid
      in case private_l loc of
           Some x \<Rightarrow> (Some x, l\<lparr>locals := (locals l)(pid := loc\<lparr>private_l := None\<rparr>)\<rparr>)
         | None \<Rightarrow> (case shared_l loc of
                      x # xs \<Rightarrow> (Some x, l\<lparr>locals := (locals l)(pid := loc\<lparr>shared_l := xs\<rparr>)\<rparr>)
                    | [] \<Rightarrow> getSlow E pid l))"

text \<open>\<^verbatim>\<open>poolCleanup\<close>, which the collector runs when it starts.\<close>

definition poolCleanup :: "env \<Rightarrow> 'a sync_Pool \<Rightarrow> 'a sync_Pool" where
  "poolCleanup E l = l\<lparr>victim := locals l, victimSize := gomaxprocs E, locals := no_locals\<rparr>"

text \<open>The items that the pool references, on the processors there are.\<close>

definition items_of :: "'a poolLocal \<Rightarrow> 'a list" where
  "items_of loc = (case private_l loc of None \<Rightarrow> [] | Some x \<Rightarrow> [x]) @ shared_l loc"

definition cached :: "env \<Rightarrow> 'a sync_Pool \<Rightarrow> 'a list" where
  "cached E l = concat (map (\<lambda>q. items_of (locals l q) @ items_of (victim l q)) [0..<gomaxprocs E])"

subsection \<open>Pool\<close>

text \<open>
  The struct \<^verbatim>\<open>Pool[T]\<close>, with \<^verbatim>\<open>max\<close> as \<open>max_p\<close>. \<open>initial\<close> and \<open>max_p\<close> are Go
  \<^verbatim>\<open>int\<close>s that are only compared and copied; \<open>count\<close> is the \<^verbatim>\<open>atomic.Int32\<close>,
  whose \<^verbatim>\<open>Add\<close> wraps around. Two fields stand for the runtime: \<open>made\<close> counts the
  invocations of the factory, \<open>finalizers\<close> lists the objects whose finalizer
  is registered and has not run.
\<close>

record 'a Pool =
  initial :: int
  max_p :: int
  syncPool :: "'a sync_Pool"
  semMax :: "Weighted option"
  count :: "32 word"
  made :: nat
  finalizers :: "'a list"

datatype PoolOption = WithBootstrapItems int | WithSize int

fun apply_opt :: "PoolOption \<Rightarrow> 'a Pool \<Rightarrow> 'a Pool" where
  "apply_opt (WithBootstrapItems c) p = p\<lparr>initial := c\<rparr>"
| "apply_opt (WithSize l) p = p\<lparr>max_p := l\<rparr>"

definition zero_Pool :: "'a Pool" where
  "zero_Pool = \<lparr>initial = 0, max_p = 0,
                 syncPool = \<lparr>locals = no_locals, victim = no_locals, victimSize = 0, New = None\<rparr>,
                 semMax = None, count = 0, made = 0, finalizers = []\<rparr>"

definition apply_opts :: "PoolOption list \<Rightarrow> 'a Pool \<Rightarrow> 'a Pool" where
  "apply_opts opts p = foldl (\<lambda>q opt. apply_opt opt q) p opts"

definition NewPool :: "PoolOption list \<Rightarrow> 'a Pool" where
  "NewPool opts =
     (let pool = apply_opts opts zero_Pool;
          pool = (if max_p pool < initial pool then pool\<lparr>max_p := initial pool\<rparr> else pool);
          pool = (if max_p pool > 0 then pool\<lparr>semMax := Some (NewWeighted (max_p pool))\<rparr>
                  else pool)
      in pool)"

text \<open>
  The closure that \<^verbatim>\<open>SetFactory\<close> stores in \<^verbatim>\<open>syncPool.New\<close>: invoke the factory,
  add one to \<open>count\<close>, register the finalizer.
\<close>

definition wrapped_New :: "(nat \<Rightarrow> 'a) \<Rightarrow> 'a Pool \<Rightarrow> 'a \<times> 'a Pool" where
  "wrapped_New factory p =
     (let newItem = factory (made p)
      in (newItem, p\<lparr>count := count p + 1, made := Suc (made p),
                      finalizers := finalizers p @ [newItem]\<rparr>))"

text \<open>
  \<^verbatim>\<open>p.syncPool.Get().(T)\<close>: when the caches give nothing and there is no \<^verbatim>\<open>New\<close>,
  \<^verbatim>\<open>Get\<close> returns nil and the type assertion panics.
\<close>

definition Get_T :: "env \<Rightarrow> nat \<Rightarrow> 'a Pool \<Rightarrow> ('a \<times> 'a Pool, 'a Pool) outcome" where
  "Get_T E k p =
     (case Get_cached E k (syncPool p) of
        (Some x, l) \<Rightarrow> Returns (x, p\<lparr>syncPool := l\<rparr>)
      | (None, l) \<Rightarrow> (case New l of
                        None \<Rightarrow> Panics (p\<lparr>syncPool := l\<rparr>)
                      | Some factory \<Rightarrow> Returns (wrapped_New factory (p\<lparr>syncPool := l\<rparr>))))"

text \<open>\<^verbatim>\<open>Borrow\<close> drops the error of \<^verbatim>\<open>Acquire\<close> and goes on to \<^verbatim>\<open>Get\<close>.\<close>

definition Borrow :: "env \<Rightarrow> nat \<Rightarrow> ctx \<Rightarrow> 'a Pool \<Rightarrow> ('a \<times> 'a Pool, 'a Pool) outcome" where
  "Borrow E k c p =
     (case semMax p of
        None \<Rightarrow> Get_T E k p
      | Some s \<Rightarrow> (case Acquire (semaphore E) c s of
                     Acquired s' \<Rightarrow> Get_T E k (p\<lparr>semMax := Some s'\<rparr>)
                   | Failed \<Rightarrow> Get_T E k p
                   | Waits \<Rightarrow> Blocks))"

definition ReturnItem :: "env \<Rightarrow> nat \<Rightarrow> 'a option \<Rightarrow> 'a Pool \<Rightarrow> ('a Pool, 'a Pool) outcome" where
  "ReturnItem E k item p =
     (let p1 = p\<lparr>syncPool := Put E k item (syncPool p)\<rparr>
      in case semMax p1 of
           None \<Rightarrow> Returns p1
         | Some s \<Rightarrow> (case Release s of
                        Released s' \<Rightarrow> Returns (p1\<lparr>semMax := Some s'\<rparr>)
                      | Over_released s' \<Rightarrow> Panics (p1\<lparr>semMax := Some s'\<rparr>)))"

definition Count :: "'a Pool \<Rightarrow> 32 word" where
  "Count p = count p"

text \<open>
  The two loops of \<^verbatim>\<open>SetFactory\<close>. The goroutine may move to another processor
  between two calls: \<open>P j\<close> is the processor of the \<open>j\<close>-th call that
  \<^verbatim>\<open>SetFactory\<close> makes into the pool. The first loop runs for
  \<open>i = 0, ..., initial - 1\<close> and appends what \<^verbatim>\<open>Borrow\<close> returns; \<open>j\<close> is the
  number of the call and the next argument the number of rounds left. The
  second loop walks \<open>items\<close> from the last index down to 0.
\<close>

fun borrow_items ::
  "env \<Rightarrow> (nat \<Rightarrow> nat) \<Rightarrow> ctx \<Rightarrow> nat \<Rightarrow> nat \<Rightarrow> 'a list \<Rightarrow> 'a Pool
     \<Rightarrow> ('a list \<times> 'a Pool, 'a Pool) outcome" where
  "borrow_items E P c j 0 items p = Returns (items, p)"
| "borrow_items E P c j (Suc n) items p =
     (case Borrow E (P j) c p of
        Returns (x, p') \<Rightarrow> borrow_items E P c (Suc j) n (items @ [x]) p'
      | Blocks \<Rightarrow> Blocks
      | Panics q \<Rightarrow> Panics q)"

fun return_items ::
  "env \<Rightarrow> (nat \<Rightarrow> nat) \<Rightarrow> nat \<Rightarrow> 'a list \<Rightarrow> 'a Pool \<Rightarrow> ('a Pool, 'a Pool) outcome" where
  "return_items E P j [] p = Returns p"
| "return_items E P j (x # xs) p =
     (case ReturnItem E (P j) (Some x) p of
        Returns p' \<Rightarrow> return_items E P (Suc j) xs p'
      | Blocks \<Rightarrow> Blocks
      | Panics q \<Rightarrow> Panics q)"

definition SetFactory ::
  "env \<Rightarrow> (nat \<Rightarrow> nat) \<Rightarrow> ctx \<Rightarrow> (nat \<Rightarrow> 'a) \<Rightarrow> 'a Pool \<Rightarrow> ('a Pool, 'a Pool) outcome" where
  "SetFactory E P c factory p =
     (let p1 = p\<lparr>syncPool := (syncPool p)\<lparr>New := Some factory\<rparr>\<rparr>
      in if initial p1 > 0 then
           (case borrow_items E P c 0 (nat (initial p1)) [] p1 of
              Returns (items, p2) \<Rightarrow>
                (case return_items E P (nat (initial p1)) (rev items) p2 of
                   Returns p3 \<Rightarrow> Returns (p3\<lparr>initial := 0\<rparr>)
                 | Blocks \<Rightarrow> Blocks
                 | Panics q \<Rightarrow> Panics q)
            | Blocks \<Rightarrow> Blocks
            | Panics q \<Rightarrow> Panics q)
         else Returns p1)"

subsection \<open>The collector, and sequences of calls\<close>

text \<open>
  The garbage collector acts on the pool in two ways. It runs the finalizer of
  an object that nothing references any more, which subtracts one from
  \<open>count\<close>; an object in the caches of the \<^verbatim>\<open>sync.Pool\<close> is still referenced.
  And it runs \<^verbatim>\<open>poolCleanup\<close>.
\<close>

definition reclaim :: "env \<Rightarrow> 'a \<Rightarrow> 'a Pool \<Rightarrow> 'a Pool option" where
  "reclaim E x p =
     (if x \<in> set (finalizers p) \<and> x \<notin> set (cached E (syncPool p))
      then Some (p\<lparr>count := count p - 1, finalizers := remove1 x (finalizers p)\<rparr>)
      else None)"

definition collect :: "env \<Rightarrow> 'a Pool \<Rightarrow> 'a Pool" where
  "collect E p = p\<lparr>syncPool := poolCleanup E (syncPool p)\<rparr>"

datatype 'a event =
    EBorrow nat ctx
  | EReturnItem nat "'a option"
  | ESetFactory "nat \<Rightarrow> nat" ctx "nat \<Rightarrow> 'a"
  | EReclaim 'a
  | ECollect

text \<open>One event: \<open>None\<close> when the call does not return or the collector cannot act.\<close>

fun step :: "env \<Rightarrow> 'a event \<Rightarrow> 'a Pool \<Rightarrow> 'a Pool option" where
  "step E (EBorrow k c) p = (case Borrow E k c p of Returns (x, p') \<Rightarrow> Some p' | _ \<Rightarrow> None)"
| "step E (EReturnItem k x) p = (case ReturnItem E k x p of Returns p' \<Rightarrow> Some p' | _ \<Rightarrow> None)"
| "step E (ESetFactory P c f) p = (case SetFactory E P c f p of Returns p' \<Rightarrow> Some p' | _ \<Rightarrow> None)"
| "step E (EReclaim x) p = reclaim E x p"
| "step E ECollect p = Some (collect E p)"

fun run :: "env \<Rightarrow> 'a event list \<Rightarrow> 'a Pool \<Rightarrow> 'a Pool option" where
  "run E [] p = Some p"
| "run E (e # es) p = (case step E e p of None \<Rightarrow> None | Some p' \<Rightarrow> run E es p')"

text \<open>
  The items outstanding after a sequence of calls that all returned: the
  borrows minus the returns.
\<close>

fun outstanding :: "'a event list \<Rightarrow> int" where
  "outstanding [] = 0"
| "outstanding (EBorrow k c # es) = outstanding es + 1"
| "outstanding (EReturnItem k x # es) = outstanding es - 1"
| "outstanding (e # es) = outstanding es"

text \<open>Sequences in which every call comes with a live context.\<close>

fun all_live :: "'a event list \<Rightarrow> bool" where
  "all_live [] = True"
| "all_live (EBorrow k c # es) = (c = Live \<and> all_live es)"
| "all_live (ESetFactory P c f # es) = (c = Live \<and> all_live es)"
| "all_live (e # es) = all_live es"

definition returned :: "('r, 's) outcome \<Rightarrow> 'r option" where
  "returned r = (case r of Returns x \<Rightarrow> Some x | Blocks \<Rightarrow> None | Panics q \<Rightarrow> None)"

definition panicked :: "('r, 's) outcome \<Rightarrow> 's option" where
  "panicked r = (case r of Returns x \<Rightarrow> None | Blocks \<Rightarrow> None | Panics q \<Rightarrow> Some q)"

text \<open>
  What every sequence of calls that returned keeps: \<open>max_p\<close> stays what the
  constructor made it, \<open>count\<close> is the number of pending finalizers (as a
  32-bit value), and the gate holds between 0 and its size, which is \<open>max_p\<close>.
\<close>

definition pool_inv :: "int \<Rightarrow> 'a Pool \<Rightarrow> bool" where
  "pool_inv M p = (max_p p = M \<and> count p = of_nat (length (finalizers p)) \<and>
     (case semMax p of None \<Rightarrow> True
      | Some s \<Rightarrow> 0 \<le> cur s \<and> cur s \<le> size_w s \<and> size_w s = M))"

subsection \<open>Pools of the test suite\<close>

text \<open>
  The tests run with the semaphore library \<open>v\<close> on two processors: \<open>rt v\<close>.
  \<open>on_P k\<close> keeps \<^verbatim>\<open>SetFactory\<close> on processor \<open>k\<close>. Pools of \<^verbatim>\<open>Worker\<close>s are as the
  tests build them, with the workers numbered in the order the factory makes
  them (the factory is \<open>id\<close>). \<open>sized n held idle k\<close> is the pool of size \<open>n\<close>
  after \<^verbatim>\<open>SetFactory\<close>, with \<open>held\<close> units of the gate taken, \<open>idle\<close> in the private
  slot of processor 0 and nothing else in the caches, and \<open>k\<close> workers made,
  none of them reclaimed.
\<close>

definition rt :: "semver \<Rightarrow> env" where
  "rt v = \<lparr>semaphore = v, more_procs = 1\<rparr>"

definition on_P :: "nat \<Rightarrow> nat \<Rightarrow> nat" where
  "on_P k = (\<lambda>j. k)"

definition sized :: "int \<Rightarrow> int \<Rightarrow> nat option \<Rightarrow> nat \<Rightarrow> nat Pool" where
  "sized n held idle k =
     \<lparr>initial = 0, max_p = n,
      syncPool = \<lparr>locals = (case idle of None \<Rightarrow> no_locals
                             | Some x \<Rightarrow> no_locals(0 := \<lparr>private_l = Some x, shared_l = []\<rparr>)),
                  victim = no_locals, victimSize = 0, New = Some id\<rparr>,
      semMax = Some \<lparr>size_w = n, cur = held\<rparr>,
      count = of_nat k, made = k, finalizers = [0..<k]\<rparr>"

section \<open>Lemmas about the model\<close>

lemma no_locals_apply: "no_locals q = \<lparr>private_l = None, shared_l = []\<rparr>"
  by (simp add: no_locals_def)

lemma no_locals_upd: "no_locals(q := \<lparr>private_l = None, shared_l = []\<rparr>) = no_locals"
  by (simp add: no_locals_def fun_eq_iff)

lemmas pool_defs = NewPool_def apply_opts_def zero_Pool_def NewWeighted_def SetFactory_def
  Borrow_def Acquire_def Release_def ReturnItem_def Get_T_def Get_cached_def Put_def
  wrapped_New_def Count_def returned_def sized_def rt_def on_P_def pin_def getSlow_def
  gomaxprocs_def panicked_def Let_def no_locals_apply no_locals_upd eval_nat_numeral mod_Suc

subsection \<open>The constructor\<close>

lemma apply_opts_Nil: "apply_opts [] p = p"
  by (simp add: apply_opts_def)

lemma apply_opts_Cons: "apply_opts (a # opts) p = apply_opts opts (apply_opt a p)"
  by (simp add: apply_opts_def)

lemma apply_opt_frame:
  "syncPool (apply_opt a p) = syncPool p" "semMax (apply_opt a p) = semMax p"
  "count (apply_opt a p) = count p" "made (apply_opt a p) = made p"
  "finalizers (apply_opt a p) = finalizers p"
  by (cases a; simp)+

lemma apply_opts_frame:
  "syncPool (apply_opts opts p) = syncPool p \<and> semMax (apply_opts opts p) = semMax p
   \<and> count (apply_opts opts p) = count p \<and> made (apply_opts opts p) = made p
   \<and> finalizers (apply_opts opts p) = finalizers p"
  by (induction opts arbitrary: p) (simp_all add: apply_opts_Nil apply_opts_Cons apply_opt_frame)

lemma NewPool_fresh:
  "(NewPool opts :: 'a Pool) =
     \<lparr>initial = initial (apply_opts opts (zero_Pool :: 'a Pool)),
      max_p = max (max_p (apply_opts opts (zero_Pool :: 'a Pool))) (initial (apply_opts opts (zero_Pool :: 'a Pool))),
      syncPool = \<lparr>locals = no_locals, victim = no_locals, victimSize = 0, New = None\<rparr>,
      semMax = (if max (max_p (apply_opts opts (zero_Pool :: 'a Pool))) (initial (apply_opts opts (zero_Pool :: 'a Pool))) > 0
                then Some \<lparr>size_w = max (max_p (apply_opts opts (zero_Pool :: 'a Pool))) (initial (apply_opts opts (zero_Pool :: 'a Pool))), cur = 0\<rparr>
                else None),
      count = 0, made = 0, finalizers = []\<rparr>"
proof -
  have z: "syncPool (zero_Pool :: 'a Pool) = \<lparr>locals = no_locals, victim = no_locals, victimSize = 0, New = None\<rparr>"
    "count (zero_Pool :: 'a Pool) = 0" "made (zero_Pool :: 'a Pool) = 0"
    "finalizers (zero_Pool :: 'a Pool) = []" "semMax (zero_Pool :: 'a Pool) = None"
    by (simp_all add: zero_Pool_def)
  note fr = apply_opts_frame [of opts "zero_Pool :: 'a Pool", unfolded z]
  show ?thesis
    by (rule Pool.equality) (simp_all add: NewPool_def Let_def NewWeighted_def fr max_def)
qed

lemma apply_opts_no_size:
  "\<forall>l. WithSize l \<notin> set opts \<Longrightarrow> max_p (apply_opts opts p) = max_p p"
proof (induction opts arbitrary: p)
  case Nil
  then show ?case by (simp add: apply_opts_Nil)
next
  case (Cons a opts)
  then show ?case by (cases a) (auto simp: apply_opts_Cons)
qed

subsection \<open>The caches\<close>

text \<open>A \<^verbatim>\<open>sync.Pool\<close> with nothing in its locals and nothing in its victim cache.\<close>

lemma steal_no_locals: "steal qs no_locals = (None, no_locals)"
  by (induction qs) (simp_all add: no_locals_apply)

lemma Put_New: "New (Put E k x l) = New l"
  by (simp add: Put_def Let_def split: option.splits)

lemma getSlow_New: "getSlow E pid l = (r, l') \<Longrightarrow> New l' = New l"
  by (auto simp: getSlow_def Let_def split: prod.splits option.splits if_splits)

lemma Get_cached_New: "Get_cached E k l = (r, l') \<Longrightarrow> New l' = New l"
  by (auto simp: Get_cached_def Let_def split: option.splits list.splits dest: getSlow_New)

lemma getSlow_vacant:
  assumes "locals l = no_locals" "victim l = no_locals"
  shows "\<exists>l'. getSlow E pid l = (None, l') \<and> locals l' = no_locals \<and> victim l' = no_locals"
  using assms by (simp add: getSlow_def Let_def steal_no_locals no_locals_apply)

lemma Get_cached_vacant:
  assumes "locals l = no_locals" "victim l = no_locals"
  shows "\<exists>l'. Get_cached E k l = (None, l') \<and> locals l' = no_locals \<and> victim l' = no_locals"
  using getSlow_vacant [OF assms, of E "pin E k"] assms
  by (simp add: Get_cached_def Let_def no_locals_apply)


lemma pin_less: "pin E k < gomaxprocs E"
  by (simp add: pin_def gomaxprocs_def)

lemma cached_vacant:
  "locals l = no_locals \<Longrightarrow> victim l = no_locals \<Longrightarrow> cached E l = []"
  by (simp add: cached_def items_of_def no_locals_apply)

lemma concat_upd_length:
  assumes "pid < n" and "length (A v) = Suc (length (A (ls pid)))"
  shows "length (concat (map (\<lambda>q. A ((ls(pid := v)) q) @ B q) [0..<n]))
     = Suc (length (concat (map (\<lambda>q. A (ls q) @ B q) [0..<n])))"
  using assms(1)
proof (induction n)
  case 0
  then show ?case by simp
next
  case (Suc n)
  show ?case
  proof (cases "pid = n")
    case True
    have c: "concat (map (\<lambda>q. A ((ls(pid := v)) q) @ B q) [0..<n])
        = concat (map (\<lambda>q. A (ls q) @ B q) [0..<n])"
      by (rule arg_cong [where f = concat], rule map_cong) (simp_all add: True)
    have u: "[0..<Suc n] = [0..<n] @ [n]" by simp
    show ?thesis
      unfolding u map_append concat_append length_append c using assms(2) True by simp
  next
    case False
    with Suc.prems have "pid < n" by simp
    from Suc.IH [OF this] False show ?thesis by simp
  qed
qed

lemma concat_upd_set:
  assumes "pid < n" and "set (A v) = insert x (set (A (ls pid)))"
  shows "set (concat (map (\<lambda>q. A ((ls(pid := v)) q) @ B q) [0..<n]))
     = insert x (set (concat (map (\<lambda>q. A (ls q) @ B q) [0..<n])))"
proof -
  have "set (concat (map (\<lambda>q. A ((ls(pid := v)) q) @ B q) [0..<n]))
      = (\<Union>q\<in>{0..<n}. set (A ((ls(pid := v)) q)) \<union> set (B q))"
    by simp
  also have "\<dots> = insert x (\<Union>q\<in>{0..<n}. set (A (ls q)) \<union> set (B q))"
    using assms by (auto simp: fun_upd_def split: if_splits)
  also have "\<dots> = insert x (set (concat (map (\<lambda>q. A (ls q) @ B q) [0..<n])))"
    by simp
  finally show ?thesis .
qed

lemma cached_Put:
  "length (cached E (Put E k (Some x) l)) = Suc (length (cached E l))"
  "set (cached E (Put E k (Some x) l)) = insert x (set (cached E l))"
proof -
  let ?v = "case private_l (locals l (pin E k)) of
              None \<Rightarrow> (locals l (pin E k))\<lparr>private_l := Some x\<rparr>
            | Some z \<Rightarrow> (locals l (pin E k))\<lparr>shared_l := x # shared_l (locals l (pin E k))\<rparr>"
  have p: "Put E k (Some x) l = l\<lparr>locals := (locals l)(pin E k := ?v)\<rparr>"
    by (simp add: Put_def Let_def split: option.splits)
  have 1: "length (items_of ?v) = Suc (length (items_of (locals l (pin E k))))"
    and 2: "set (items_of ?v) = insert x (set (items_of (locals l (pin E k))))"
    by (cases "private_l (locals l (pin E k))"; auto simp: items_of_def)+
  show "length (cached E (Put E k (Some x) l)) = Suc (length (cached E l))"
    unfolding p cached_def using concat_upd_length [where A = items_of and ls = "locals l" and pid = "pin E k"
        and v = ?v and n = "gomaxprocs E" and B = "\<lambda>q. items_of (victim l q)", OF pin_less 1]
    by simp
  show "set (cached E (Put E k (Some x) l)) = insert x (set (cached E l))"
    unfolding p cached_def using concat_upd_set [where A = items_of and ls = "locals l" and pid = "pin E k"
        and v = ?v and n = "gomaxprocs E" and B = "\<lambda>q. items_of (victim l q)", OF pin_less 2]
    by simp
qed

subsection \<open>One call\<close>

lemma Get_T_frame:
  assumes "Get_T E k p = Returns (x, p')"
  shows "semMax p' = semMax p \<and> max_p p' = max_p p \<and> initial p' = initial p
    \<and> New (syncPool p') = New (syncPool p)
    \<and> (count p' = count p \<and> finalizers p' = finalizers p \<and> made p' = made p
       \<or> count p' = count p + 1 \<and> finalizers p' = finalizers p @ [x] \<and> made p' = Suc (made p))"
proof -
  obtain r l where g: "Get_cached E k (syncPool p) = (r, l)" by (cases "Get_cached E k (syncPool p)")
  from Get_cached_New [OF g] assms g show ?thesis
    by (auto simp: Get_T_def wrapped_New_def Let_def split: option.splits)
qed

lemma Get_T_returns:
  assumes "New (syncPool p) = Some f"
  shows "\<exists>x p'. Get_T E k p = Returns (x, p')"
proof -
  obtain r l where g: "Get_cached E k (syncPool p) = (r, l)" by (cases "Get_cached E k (syncPool p)")
  from Get_cached_New [OF g] assms g show ?thesis
    by (cases r) (auto simp: Get_T_def split: prod.splits)
qed

lemma Get_T_vacant:
  assumes "locals (syncPool p) = no_locals" "victim (syncPool p) = no_locals"
    and "Get_T E k p = Returns (x, p')"
  shows "locals (syncPool p') = no_locals \<and> victim (syncPool p') = no_locals
    \<and> count p' = count p + 1"
proof -
  from Get_cached_vacant [OF assms(1,2), of E k]
  obtain l where g: "Get_cached E k (syncPool p) = (None, l)"
    and l: "locals l = no_locals" "victim l = no_locals" by blast
  from assms(3) g l show ?thesis
    by (auto simp: Get_T_def wrapped_New_def Let_def split: option.splits)
qed

lemma Borrow_frame:
  assumes "Borrow E k c p = Returns (x, p')"
  shows "max_p p' = max_p p \<and> initial p' = initial p
    \<and> New (syncPool p') = New (syncPool p)
    \<and> (count p' = count p \<and> finalizers p' = finalizers p \<and> made p' = made p
       \<or> count p' = count p + 1 \<and> finalizers p' = finalizers p @ [x] \<and> made p' = Suc (made p))"
proof (cases "semMax p")
  case None
  with assms Get_T_frame [of E k p x p'] show ?thesis by (simp add: Borrow_def)
next
  case (Some s)
  show ?thesis
  proof (cases "Acquire (semaphore E) c s")
    case (Acquired s')
    with assms Some Get_T_frame [of E k "p\<lparr>semMax := Some s'\<rparr>" x p'] show ?thesis
      by (simp add: Borrow_def)
  next
    case Failed
    with assms Some Get_T_frame [of E k p x p'] show ?thesis by (simp add: Borrow_def)
  next
    case Waits
    with assms Some show ?thesis by (simp add: Borrow_def)
  qed
qed

text \<open>What a Borrow that returns does to the gate.\<close>

lemma Borrow_gate:
  assumes "Borrow E k c p = Returns (x, p')" and "semMax p = Some s"
  shows "semMax p' = Some s \<and> c \<noteq> Live \<or> semMax p' = Some (s\<lparr>cur := cur s + 1\<rparr>) \<and> cur s < size_w s"
proof (cases "Acquire (semaphore E) c s")
  case (Acquired s')
  then have "s' = s\<lparr>cur := cur s + 1\<rparr>" "cur s < size_w s"
    by (auto simp: Acquire_def split: if_splits)
  with assms Acquired Get_T_frame [of E k "p\<lparr>semMax := Some s'\<rparr>" x p'] show ?thesis
    by (simp add: Borrow_def)
next
  case Failed
  then have "c \<noteq> Live" by (auto simp: Acquire_def split: if_splits)
  with assms Failed Get_T_frame [of E k p x p'] show ?thesis by (simp add: Borrow_def)
next
  case Waits
  with assms show ?thesis by (simp add: Borrow_def)
qed

lemma Borrow_unbounded_gate:
  "Borrow E k c p = Returns (x, p') \<Longrightarrow> semMax p = None \<Longrightarrow> semMax p' = None"
  using Get_T_frame [of E k p x p'] by (simp add: Borrow_def)

lemma ReturnItem_frame:
  assumes "ReturnItem E k x p = Returns p'"
  shows "max_p p' = max_p p \<and> initial p' = initial p \<and> New (syncPool p') = New (syncPool p)
    \<and> count p' = count p \<and> finalizers p' = finalizers p \<and> made p' = made p"
  using assms
  by (auto simp: ReturnItem_def Release_def Let_def Put_New split: option.splits if_splits)

lemma ReturnItem_gate:
  "ReturnItem E k x p = Returns p' \<Longrightarrow> semMax p = Some s \<Longrightarrow>
     semMax p' = Some (s\<lparr>cur := cur s - 1\<rparr>) \<and> 1 \<le> cur s"
  by (auto simp: ReturnItem_def Release_def Let_def split: if_splits)

lemma ReturnItem_unbounded_gate:
  "ReturnItem E k x p = Returns p' \<Longrightarrow> semMax p = None \<Longrightarrow> semMax p' = None"
  by (auto simp: ReturnItem_def Let_def)

subsection \<open>The two loops\<close>

lemma borrow_items_Suc:
  assumes "borrow_items E P c j (Suc n) acc p = Returns (items, p')"
  obtains x q where "Borrow E (P j) c p = Returns (x, q)"
    and "borrow_items E P c (Suc j) n (acc @ [x]) q = Returns (items, p')"
  using assms by (auto split: outcome.splits prod.splits)

lemma return_items_Cons:
  assumes "return_items E P j (x # xs) p = Returns p'"
  obtains q where "ReturnItem E (P j) (Some x) p = Returns q"
    and "return_items E P (Suc j) xs q = Returns p'"
  using assms by (auto split: outcome.splits)

lemma SetFactory_bootstrap_cases:
  assumes "SetFactory E P c f p = Returns p'" and "0 < initial p"
  obtains items p2 p3 where
    "borrow_items E P c 0 (nat (initial p)) [] (p\<lparr>syncPool := (syncPool p)\<lparr>New := Some f\<rparr>\<rparr>)
       = Returns (items, p2)"
    and "return_items E P (nat (initial p)) (rev items) p2 = Returns p3"
    and "p' = p3\<lparr>initial := 0\<rparr>"
  using assms by (auto simp: SetFactory_def Let_def split: outcome.splits prod.splits)

lemma borrow_items_length:
  "borrow_items E P c j n acc p = Returns (items, p') \<Longrightarrow> length items = length acc + n"
proof (induction n arbitrary: j acc p)
  case 0
  then show ?case by simp
next
  case (Suc n)
  from Suc.prems obtain x q where "borrow_items E P c (Suc j) n (acc @ [x]) q = Returns (items, p')"
    by (rule borrow_items_Suc)
  from Suc.IH [OF this] show ?case by simp
qed

text \<open>With an empty cache every Borrow of the first loop invokes the factory.\<close>

lemma Borrow_vacant:
  assumes "locals (syncPool p) = no_locals" "victim (syncPool p) = no_locals"
    and "Borrow E k c p = Returns (x, p')"
  shows "locals (syncPool p') = no_locals \<and> victim (syncPool p') = no_locals
    \<and> count p' = count p + 1"
proof (cases "semMax p")
  case None
  with assms Get_T_vacant [of p E k x p'] show ?thesis by (simp add: Borrow_def)
next
  case (Some s)
  show ?thesis
  proof (cases "Acquire (semaphore E) c s")
    case (Acquired s')
    with assms Some Get_T_vacant [of "p\<lparr>semMax := Some s'\<rparr>" E k x p'] show ?thesis
      by (simp add: Borrow_def)
  next
    case Failed
    with assms Some Get_T_vacant [of p E k x p'] show ?thesis by (simp add: Borrow_def)
  next
    case Waits
    with assms Some show ?thesis by (simp add: Borrow_def)
  qed
qed

lemma borrow_items_vacant:
  assumes "locals (syncPool p) = no_locals" "victim (syncPool p) = no_locals"
    and "borrow_items E P c j n acc p = Returns (items, p')"
  shows "count p' = count p + of_nat n"
  using assms
proof (induction n arbitrary: j p acc)
  case 0
  then show ?case by simp
next
  case (Suc n)
  from Suc.prems(3) obtain x q where b: "Borrow E (P j) c p = Returns (x, q)"
    and r: "borrow_items E P c (Suc j) n (acc @ [x]) q = Returns (items, p')"
    by (rule borrow_items_Suc)
  from Borrow_vacant [OF Suc.prems(1,2) b] Suc.IH [OF _ _ r]
  show ?case by simp
qed

lemma return_items_count: "return_items E P j xs p = Returns p' \<Longrightarrow> count p' = count p"
proof (induction xs arbitrary: j p)
  case Nil
  then show ?case by simp
next
  case (Cons x xs)
  from Cons.prems obtain q where b: "ReturnItem E (P j) (Some x) p = Returns q"
    and r: "return_items E P (Suc j) xs q = Returns p'"
    by (rule return_items_Cons)
  from Cons.IH [OF r] ReturnItem_frame [OF b] show ?case by simp
qed

subsection \<open>Admitted borrows\<close>

text \<open>A context with which \<^verbatim>\<open>Acquire\<close> takes a unit that is free.\<close>

lemma Borrow_admitted:
  assumes "semMax p = Some s" "cur s < size_w s" "New (syncPool p) = Some f"
    and "semaphore E = Legacy \<or> c \<noteq> Done"
  shows "\<exists>x p'. Borrow E k c p = Returns (x, p') \<and> semMax p' = Some (s\<lparr>cur := cur s + 1\<rparr>)
            \<and> New (syncPool p') = Some f \<and> initial p' = initial p \<and> max_p p' = max_p p"
proof -
  have a: "Acquire (semaphore E) c s = Acquired (s\<lparr>cur := cur s + 1\<rparr>)"
    using assms(2,4) by (auto simp: Acquire_def)
  let ?q = "p\<lparr>semMax := Some (s\<lparr>cur := cur s + 1\<rparr>)\<rparr>"
  from Get_T_returns [of ?q f E k] assms(3)
  obtain x p' where g: "Get_T E k ?q = Returns (x, p')" by auto
  from Get_T_frame [OF g] assms(3) have "semMax p' = Some (s\<lparr>cur := cur s + 1\<rparr>)"
    "New (syncPool p') = Some f" "initial p' = initial p" "max_p p' = max_p p"
    by simp_all
  with g a assms(1) show ?thesis by (simp add: Borrow_def)
qed

lemma run_Borrow_Live:
  assumes "semMax p = Some s" "cur s + int n \<le> size_w s" "New (syncPool p) = Some f"
  shows "\<exists>p'. run E (replicate n (EBorrow k Live)) p = Some p'
            \<and> semMax p' = Some (s\<lparr>cur := cur s + int n\<rparr>) \<and> New (syncPool p') = Some f"
  using assms
proof (induction n arbitrary: p s)
  case 0
  then show ?case by simp
next
  case (Suc n)
  from Suc.prems obtain x q where b: "Borrow E k Live p = Returns (x, q)"
    and q: "semMax q = Some (s\<lparr>cur := cur s + 1\<rparr>)" "New (syncPool q) = Some f"
    using Borrow_admitted [of p s f E Live k] by auto
  from Suc.IH [OF q(1) _ q(2)] Suc.prems(2)
  obtain p' where "run E (replicate n (EBorrow k Live)) q = Some p'"
    "semMax p' = Some (s\<lparr>cur := cur s + 1 + int n\<rparr>)" "New (syncPool p') = Some f"
    by auto
  with b show ?case by (simp add: add.commute add.left_commute)
qed

lemma Borrow_Live_full:
  "semMax p = Some s \<Longrightarrow> size_w s \<le> cur s \<Longrightarrow> Borrow E k Live p = Blocks"
  by (simp add: Borrow_def Acquire_def)

lemma borrow_items_admitted:
  assumes "semMax p = Some s" "cur s + int n \<le> size_w s" "New (syncPool p) = Some f"
    and "semaphore E = Legacy \<or> c \<noteq> Done"
  shows "\<exists>items p'. borrow_items E P c j n acc p = Returns (items, p')
            \<and> semMax p' = Some (s\<lparr>cur := cur s + int n\<rparr>) \<and> New (syncPool p') = Some f
            \<and> initial p' = initial p \<and> max_p p' = max_p p"
  using assms(1,2,3)
proof (induction n arbitrary: j acc p s)
  case 0
  then show ?case by simp
next
  case (Suc n)
  from Suc.prems assms(4) obtain x q where b: "Borrow E (P j) c p = Returns (x, q)"
    and q: "semMax q = Some (s\<lparr>cur := cur s + 1\<rparr>)" "New (syncPool q) = Some f"
      "initial q = initial p" "max_p q = max_p p"
    using Borrow_admitted [of p s f E c "P j"] by auto
  from Suc.IH [OF q(1) _ q(2), of "Suc j" "acc @ [x]"] Suc.prems(2)
  obtain items p' where "borrow_items E P c (Suc j) n (acc @ [x]) q = Returns (items, p')"
    "semMax p' = Some (s\<lparr>cur := cur s + 1 + int n\<rparr>)" "New (syncPool p') = Some f"
    "initial p' = initial q" "max_p p' = max_p q"
    by auto
  with b q show ?case by (simp add: add.commute add.left_commute)
qed

lemma return_items_held:
  assumes "semMax p = Some s" "int (length xs) \<le> cur s"
  shows "\<exists>p'. return_items E P j xs p = Returns p'
            \<and> semMax p' = Some (s\<lparr>cur := cur s - int (length xs)\<rparr>)
            \<and> New (syncPool p') = New (syncPool p)
            \<and> initial p' = initial p \<and> max_p p' = max_p p"
  using assms
proof (induction xs arbitrary: j p s)
  case Nil
  then show ?case by simp
next
  case (Cons x xs)
  let ?q = "p\<lparr>syncPool := Put E (P j) (Some x) (syncPool p), semMax := Some (s\<lparr>cur := cur s - 1\<rparr>)\<rparr>"
  have r: "ReturnItem E (P j) (Some x) p = Returns ?q"
    using Cons.prems by (simp add: ReturnItem_def Release_def Let_def)
  from Cons.IH [of ?q "s\<lparr>cur := cur s - 1\<rparr>" "Suc j"] Cons.prems(2)
  obtain p' where "return_items E P (Suc j) xs ?q = Returns p'"
    "semMax p' = Some (s\<lparr>cur := cur s - 1 - int (length xs)\<rparr>)"
    "New (syncPool p') = New (syncPool ?q)" "initial p' = initial ?q" "max_p p' = max_p ?q"
    by auto
  with r show ?case by (simp add: Put_New algebra_simps)
qed

text \<open>
  On a pool fresh from \<^verbatim>\<open>NewPool\<close> with \<open>initial = n > 0\<close>, and a context with
  which the gate admits, \<^verbatim>\<open>SetFactory\<close> returns: \<open>n\<close> items are made, every unit
  is free again and \<open>initial\<close> is 0.
\<close>

lemma SetFactory_fresh:
  fixes f :: "nat \<Rightarrow> 'a"
  assumes "initial (NewPool opts :: 'a Pool) = int n" and "0 < n"
    and "semaphore E = Legacy \<or> c \<noteq> Done"
  shows "\<exists>p'. SetFactory E P c f (NewPool opts :: 'a Pool) = Returns p'
     \<and> semMax p' = Some \<lparr>size_w = max_p (NewPool opts :: 'a Pool), cur = 0\<rparr>
     \<and> New (syncPool p') = Some f \<and> initial p' = 0
     \<and> max_p p' = max_p (NewPool opts :: 'a Pool) \<and> count p' = of_nat n"
proof -
  let ?P = "NewPool opts :: 'a Pool"
  let ?p1 = "?P\<lparr>syncPool := (syncPool ?P)\<lparr>New := Some f\<rparr>\<rparr>"
  let ?s = "\<lparr>size_w = max_p ?P, cur = 0\<rparr>"
  have le: "int n \<le> max_p ?P" "0 < max_p ?P"
    using assms(1,2) by (simp_all add: NewPool_fresh)
  have s1: "semMax ?p1 = Some ?s" using le(2) by (simp add: NewPool_fresh)
  from borrow_items_admitted [of ?p1 ?s n f E c P 0 "[]"] s1 le(1) assms(3)
  obtain items p2 where b: "borrow_items E P c 0 n [] ?p1 = Returns (items, p2)"
    and p2: "semMax p2 = Some (?s\<lparr>cur := int n\<rparr>)" "New (syncPool p2) = Some f"
      "initial p2 = int n" "max_p p2 = max_p ?P"
    using assms(1) by auto
  have l: "length items = n" using borrow_items_length [OF b] by simp
  have c2: "count p2 = of_nat n"
    using borrow_items_vacant [OF _ _ b] by (simp add: NewPool_fresh)
  from return_items_held [of p2 "?s\<lparr>cur := int n\<rparr>" "rev items" E P n] p2(1) l
  obtain p3 where r: "return_items E P n (rev items) p2 = Returns p3"
    and p3: "semMax p3 = Some ?s" "New (syncPool p3) = Some f" "max_p p3 = max_p ?P"
    using p2 by auto
  have c3: "count p3 = of_nat n" using return_items_count [OF r] c2 by simp
  have "SetFactory E P c f ?P = Returns (p3\<lparr>initial := 0\<rparr>)"
    using assms(1,2) b r by (simp add: SetFactory_def Let_def)
  with p3 c3 show ?thesis by simp
qed

subsection \<open>What every sequence of calls that returned keeps\<close>

lemma Borrow_inv:
  assumes "pool_inv M p" and "Borrow E k c p = Returns (x, p')"
  shows "pool_inv M p'"
proof (cases "semMax p")
  case None
  from Borrow_frame [OF assms(2)] Borrow_unbounded_gate [OF assms(2) None] assms(1)
  show ?thesis by (auto simp: pool_inv_def)
next
  case (Some s)
  from Borrow_frame [OF assms(2)] Borrow_gate [OF assms(2) Some] assms(1) Some
  show ?thesis by (auto simp: pool_inv_def)
qed

lemma ReturnItem_inv:
  assumes "pool_inv M p" and "ReturnItem E k x p = Returns p'"
  shows "pool_inv M p'"
proof (cases "semMax p")
  case None
  from ReturnItem_frame [OF assms(2)] ReturnItem_unbounded_gate [OF assms(2) None] assms(1)
  show ?thesis by (auto simp: pool_inv_def)
next
  case (Some s)
  from ReturnItem_frame [OF assms(2)] ReturnItem_gate [OF assms(2) Some] assms(1) Some
  show ?thesis by (auto simp: pool_inv_def)
qed

lemma borrow_items_inv:
  "pool_inv M p \<Longrightarrow> borrow_items E P c j n acc p = Returns (items, p') \<Longrightarrow> pool_inv M p'"
proof (induction n arbitrary: j p acc)
  case 0
  then show ?case by simp
next
  case (Suc n)
  from Suc.prems(2) obtain x q where b: "Borrow E (P j) c p = Returns (x, q)"
    and r: "borrow_items E P c (Suc j) n (acc @ [x]) q = Returns (items, p')"
    by (rule borrow_items_Suc)
  from Suc.IH [OF Borrow_inv [OF Suc.prems(1) b] r] show ?case .
qed

lemma return_items_inv:
  "pool_inv M p \<Longrightarrow> return_items E P j xs p = Returns p' \<Longrightarrow> pool_inv M p'"
proof (induction xs arbitrary: j p)
  case Nil
  then show ?case by simp
next
  case (Cons x xs)
  from Cons.prems(2) obtain q where b: "ReturnItem E (P j) (Some x) p = Returns q"
    and r: "return_items E P (Suc j) xs q = Returns p'"
    by (rule return_items_Cons)
  from Cons.IH [OF ReturnItem_inv [OF Cons.prems(1) b] r] show ?case .
qed

lemma inv_frame:
  "pool_inv M p \<Longrightarrow> pool_inv M (p\<lparr>syncPool := l\<rparr>)" "pool_inv M p \<Longrightarrow> pool_inv M (p\<lparr>initial := i\<rparr>)"
  by (simp_all add: pool_inv_def)

lemma SetFactory_inv:
  assumes "pool_inv M p" and "SetFactory E P c f p = Returns p'"
  shows "pool_inv M p'"
proof (cases "initial p > 0")
  case False
  with assms show ?thesis by (auto simp: SetFactory_def Let_def inv_frame)
next
  case True
  let ?p1 = "p\<lparr>syncPool := (syncPool p)\<lparr>New := Some f\<rparr>\<rparr>"
  from assms(2) True obtain items p2 p3 where
    b: "borrow_items E P c 0 (nat (initial p)) [] ?p1 = Returns (items, p2)"
    and r: "return_items E P (nat (initial p)) (rev items) p2 = Returns p3"
    and e: "p' = p3\<lparr>initial := 0\<rparr>"
    by (rule SetFactory_bootstrap_cases)
  have "pool_inv M ?p1" using assms(1) by (rule inv_frame)
  then have "pool_inv M p2" using b by (rule borrow_items_inv)
  then have "pool_inv M p3" using r by (rule return_items_inv)
  then show ?thesis unfolding e by (rule inv_frame)
qed

lemma reclaim_inv: "pool_inv M p \<Longrightarrow> reclaim E x p = Some p' \<Longrightarrow> pool_inv M p'"
proof -
  assume i: "pool_inv M p" and r: "reclaim E x p = Some p'"
  then have x: "x \<in> set (finalizers p)" and
    p': "p' = p\<lparr>count := count p - 1, finalizers := remove1 x (finalizers p)\<rparr>"
    by (auto simp: reclaim_def split: if_splits)
  from x have "length (finalizers p) = Suc (length (remove1 x (finalizers p)))"
    by (simp add: length_remove1) (cases "finalizers p"; simp)
  then show ?thesis using i unfolding p' by (simp add: pool_inv_def)
qed

lemma collect_inv: "pool_inv M p \<Longrightarrow> pool_inv M (collect E p)"
  by (simp add: collect_def pool_inv_def)

lemma step_inv: "pool_inv M p \<Longrightarrow> step E e p = Some p' \<Longrightarrow> pool_inv M p'"
  by (cases e)
    (auto split: outcome.splits prod.splits
      dest: Borrow_inv ReturnItem_inv SetFactory_inv reclaim_inv simp: collect_inv)

lemma run_inv: "pool_inv M p \<Longrightarrow> run E es p = Some p' \<Longrightarrow> pool_inv M p'"
proof (induction es arbitrary: p)
  case Nil
  then show ?case by simp
next
  case (Cons e es)
  then show ?case by (auto split: option.splits dest: step_inv)
qed

lemma NewPool_inv: "pool_inv (max_p (NewPool opts :: 'a Pool)) (NewPool opts :: 'a Pool)"
  by (simp add: NewPool_fresh pool_inv_def)

subsection \<open>The gate and the outstanding items\<close>

text \<open>
  A Borrow that returns has taken at most one unit, and exactly one when its
  context is live; a ReturnItem that returns has freed one. So the gate never
  holds more than the items outstanding, and exactly that many when every
  context is live.
\<close>

lemma borrow_items_gate:
  assumes "borrow_items E P c j n acc p = Returns (items, p')" and "semMax p = Some s"
  shows "\<exists>d. semMax p' = Some (s\<lparr>cur := cur s + d\<rparr>) \<and> 0 \<le> d \<and> d \<le> int n
            \<and> (c = Live \<longrightarrow> d = int n)"
  using assms
proof (induction n arbitrary: j acc p s)
  case 0
  then show ?case by (auto intro: exI [of _ 0])
next
  case (Suc n)
  from Suc.prems(1) obtain x q where b: "Borrow E (P j) c p = Returns (x, q)"
    and r: "borrow_items E P c (Suc j) n (acc @ [x]) q = Returns (items, p')"
    by (rule borrow_items_Suc)
  from Borrow_gate [OF b Suc.prems(2)]
  obtain e where q: "semMax q = Some (s\<lparr>cur := cur s + e\<rparr>)" and e: "0 \<le> e" "e \<le> 1" "c = Live \<longrightarrow> e = 1"
    by (auto intro: that [of 0] that [of 1])
  from Suc.IH [OF r q]
  obtain d where "semMax p' = Some (s\<lparr>cur := cur s + e + d\<rparr>)" "0 \<le> d" "d \<le> int n" "c = Live \<longrightarrow> d = int n"
    by auto
  with e show ?case by (intro exI [of _ "e + d"]) (auto simp: add.assoc)
qed

lemma return_items_gate:
  "return_items E P j xs p = Returns p' \<Longrightarrow> semMax p = Some s \<Longrightarrow>
     semMax p' = Some (s\<lparr>cur := cur s - int (length xs)\<rparr>)"
proof (induction xs arbitrary: j p s)
  case Nil
  then show ?case by simp
next
  case (Cons x xs)
  from Cons.prems(1) obtain q where b: "ReturnItem E (P j) (Some x) p = Returns q"
    and r: "return_items E P (Suc j) xs q = Returns p'"
    by (rule return_items_Cons)
  from ReturnItem_gate [OF b Cons.prems(2)] have "semMax q = Some (s\<lparr>cur := cur s - 1\<rparr>)" by simp
  from Cons.IH [OF r this] show ?case by (simp add: algebra_simps)
qed

lemma SetFactory_gate:
  assumes "SetFactory E P c f p = Returns p'" and "semMax p = Some s"
  shows "\<exists>d. semMax p' = Some (s\<lparr>cur := cur s + d\<rparr>) \<and> d \<le> 0 \<and> (c = Live \<longrightarrow> d = 0)"
proof (cases "initial p > 0")
  case False
  with assms show ?thesis by (auto simp: SetFactory_def Let_def intro: exI [of _ 0])
next
  case True
  let ?p1 = "p\<lparr>syncPool := (syncPool p)\<lparr>New := Some f\<rparr>\<rparr>"
  from assms(1) True obtain items p2 p3 where
    b: "borrow_items E P c 0 (nat (initial p)) [] ?p1 = Returns (items, p2)"
    and r: "return_items E P (nat (initial p)) (rev items) p2 = Returns p3"
    and e: "p' = p3\<lparr>initial := 0\<rparr>"
    by (rule SetFactory_bootstrap_cases)
  have s1: "semMax ?p1 = Some s" using assms(2) by simp
  from borrow_items_gate [OF b s1]
  obtain d where 2: "semMax p2 = Some (s\<lparr>cur := cur s + d\<rparr>)"
    and d: "d \<le> int (nat (initial p))" "c = Live \<longrightarrow> d = int (nat (initial p))" by auto
  have l: "length items = nat (initial p)" using borrow_items_length [OF b] by simp
  from return_items_gate [OF r 2] l
  have "semMax p' = Some (s\<lparr>cur := cur s + (d - int (nat (initial p)))\<rparr>)"
    by (simp add: e algebra_simps)
  with d show ?thesis by (intro exI [of _ "d - int (nat (initial p))"]) auto
qed

lemma outstanding_Cons: "outstanding (e # es) = outstanding [e] + outstanding es"
  by (cases e) simp_all

lemma all_live_Cons: "all_live (e # es) = (all_live [e] \<and> all_live es)"
  by (cases e) simp_all

lemma step_gate:
  assumes "step E e p = Some p'" and "semMax p = Some s"
  shows "\<exists>d. semMax p' = Some (s\<lparr>cur := cur s + d\<rparr>) \<and> d \<le> outstanding [e]
            \<and> (all_live [e] \<longrightarrow> d = outstanding [e])"
proof (cases e)
  case (EBorrow k c)
  with assms obtain x where b: "Borrow E k c p = Returns (x, p')"
    by (auto split: outcome.splits prod.splits)
  from Borrow_gate [OF b assms(2)] EBorrow show ?thesis
    by (auto intro: exI [of _ 0] exI [of _ 1])
next
  case (EReturnItem k x)
  with assms have b: "ReturnItem E k x p = Returns p'"
    by (auto split: outcome.splits)
  from ReturnItem_gate [OF b assms(2)] EReturnItem show ?thesis
    by (auto intro: exI [of _ "- 1"])
next
  case (ESetFactory P c f)
  with assms have b: "SetFactory E P c f p = Returns p'"
    by (auto split: outcome.splits)
  from SetFactory_gate [OF b assms(2)] ESetFactory show ?thesis by auto
next
  case (EReclaim x)
  with assms show ?thesis by (auto simp: reclaim_def split: if_splits intro: exI [of _ 0])
next
  case ECollect
  with assms show ?thesis by (auto simp: collect_def intro: exI [of _ 0])
qed

lemma run_gate:
  assumes "run E es p = Some p'" and "semMax p = Some s"
  shows "\<exists>d. semMax p' = Some (s\<lparr>cur := cur s + d\<rparr>) \<and> d \<le> outstanding es
            \<and> (all_live es \<longrightarrow> d = outstanding es)"
  using assms
proof (induction es arbitrary: p s)
  case Nil
  then show ?case by (auto intro: exI [of _ 0])
next
  case (Cons e es)
  from Cons.prems(1) obtain q where st: "step E e p = Some q" and r: "run E es q = Some p'"
    by (auto split: option.splits)
  from step_gate [OF st Cons.prems(2)]
  obtain d1 where q: "semMax q = Some (s\<lparr>cur := cur s + d1\<rparr>)"
    and d1: "d1 \<le> outstanding [e]" "all_live [e] \<longrightarrow> d1 = outstanding [e]" by auto
  from Cons.IH [OF r q]
  obtain d2 where p': "semMax p' = Some (s\<lparr>cur := cur s + d1 + d2\<rparr>)"
    and d2: "d2 \<le> outstanding es" "all_live es \<longrightarrow> d2 = outstanding es" by auto
  show ?case
    using p' d1 d2
    by (intro exI [of _ "d1 + d2"])
      (auto simp: outstanding_Cons [of e es] all_live_Cons [of e es] add.assoc)
qed

lemma run_Live_gate:
  "all_live es \<Longrightarrow> run E es p = Some p' \<Longrightarrow> semMax p = Some s \<Longrightarrow>
     semMax p' = Some (s\<lparr>cur := cur s + outstanding es\<rparr>)"
  using run_gate [of E es p p' s] by auto

text \<open>
  When every context is live the gate holds exactly the outstanding items, and
  these stay within \<open>max\<close>.
\<close>

lemma outstanding_le_max_live:
  fixes p :: "'a Pool"
  assumes "0 < max_p (NewPool opts :: 'a Pool)" and "all_live es"
    and "run E es (NewPool opts) = Some p"
  shows "outstanding es \<le> max_p (NewPool opts :: 'a Pool)"
proof -
  let ?M = "max_p (NewPool opts :: 'a Pool)"
  have s: "semMax (NewPool opts :: 'a Pool) = Some \<lparr>size_w = ?M, cur = 0\<rparr>"
    using assms(1) by (simp add: NewPool_fresh)
  from run_Live_gate [OF assms(2,3) s]
  have g: "semMax p = Some \<lparr>size_w = ?M, cur = outstanding es\<rparr>" by simp
  have "pool_inv ?M p" using NewPool_inv assms(3) by (rule run_inv)
  with g show ?thesis by (simp add: pool_inv_def)
qed

subsection \<open>The counter\<close>

lemma sint_count: "n < 2 ^ 31 \<Longrightarrow> sint (of_nat n :: 32 word) = int n"
  by (simp add: signed_of_nat signed_take_bit_int_eq_self)

lemma run_Borrow_unbounded:
  assumes "semMax p = None" "locals (syncPool p) = no_locals" "victim (syncPool p) = no_locals"
    and "New (syncPool p) = Some f"
  shows "map_option count (run E (replicate n (EBorrow k c)) p) = Some (count p + of_nat n)"
  using assms
proof (induction n arbitrary: p)
  case 0
  then show ?case by simp
next
  case (Suc n)
  from Get_T_returns [OF Suc.prems(4), of E k] Suc.prems(1)
  obtain x q where b: "Borrow E k c p = Returns (x, q)" by (auto simp: Borrow_def)
  from Borrow_vacant [OF Suc.prems(2,3) b] Borrow_frame [OF b] Borrow_unbounded_gate [OF b Suc.prems(1)]
    Suc.prems(4)
  have q: "semMax q = None" "locals (syncPool q) = no_locals" "victim (syncPool q) = no_locals"
    "New (syncPool q) = Some f" and c: "count q = count p + 1"
    by simp_all
  from Suc.IH [OF q] b c show ?case by (auto simp: add.assoc)
qed

lemma unbounded_count:
  "map_option Count (run E (ESetFactory P c f # replicate n (EBorrow k c')) (NewPool []))
     = Some (of_nat n)"
proof -
  let ?p = "\<lparr>initial = 0, max_p = 0,
      syncPool = \<lparr>locals = no_locals, victim = no_locals, victimSize = 0, New = Some f\<rparr>,
      semMax = None, count = 0, made = 0, finalizers = []\<rparr>"
  have s: "step E (ESetFactory P c f) (NewPool []) = Some ?p"
    by (simp add: NewPool_def apply_opts_def zero_Pool_def SetFactory_def Let_def)
  have "map_option count (run E (replicate n (EBorrow k c')) ?p) = Some (count ?p + of_nat n)"
    by (rule run_Borrow_unbounded) simp_all
  then show ?thesis
    unfolding run.simps s option.case by (auto simp: Count_def)
qed

subsection \<open>The bootstrap\<close>

lemma Get_T_vacant_item:
  assumes "locals (syncPool p) = no_locals" "victim (syncPool p) = no_locals"
    and "New (syncPool p) = Some f" and "Get_T E k p = Returns (x, p')"
  shows "x = f (made p) \<and> made p' = Suc (made p)"
proof -
  from Get_cached_vacant [OF assms(1,2), of E k]
  obtain l where g: "Get_cached E k (syncPool p) = (None, l)" by blast
  from Get_cached_New [OF g] assms(3,4) g show ?thesis
    by (auto simp: Get_T_def wrapped_New_def Let_def)
qed

lemma Borrow_vacant_item:
  assumes "locals (syncPool p) = no_locals" "victim (syncPool p) = no_locals"
    and "New (syncPool p) = Some f" and "Borrow E k c p = Returns (x, p')"
  shows "x = f (made p) \<and> made p' = Suc (made p)"
proof (cases "semMax p")
  case None
  with assms Get_T_vacant_item [of p f E k x p'] show ?thesis by (simp add: Borrow_def)
next
  case (Some s)
  show ?thesis
  proof (cases "Acquire (semaphore E) c s")
    case (Acquired s')
    with assms Some Get_T_vacant_item [of "p\<lparr>semMax := Some s'\<rparr>" f E k x p'] show ?thesis
      by (simp add: Borrow_def)
  next
    case Failed
    with assms Some Get_T_vacant_item [of p f E k x p'] show ?thesis by (simp add: Borrow_def)
  next
    case Waits
    with assms Some show ?thesis by (simp add: Borrow_def)
  qed
qed

lemma borrow_items_vacant_items:
  assumes "locals (syncPool p) = no_locals" "victim (syncPool p) = no_locals"
    and "New (syncPool p) = Some f"
    and "borrow_items E P c j n acc p = Returns (items, p')"
  shows "items = acc @ map f [made p..<made p + n] \<and> made p' = made p + n
    \<and> locals (syncPool p') = no_locals \<and> victim (syncPool p') = no_locals"
  using assms
proof (induction n arbitrary: j p acc)
  case 0
  then show ?case by simp
next
  case (Suc n)
  from Suc.prems(4) obtain x q where b: "Borrow E (P j) c p = Returns (x, q)"
    and r: "borrow_items E P c (Suc j) n (acc @ [x]) q = Returns (items, p')"
    by (rule borrow_items_Suc)
  from Borrow_vacant [OF Suc.prems(1,2) b] Borrow_frame [OF b] Suc.prems(3)
  have q: "locals (syncPool q) = no_locals" "victim (syncPool q) = no_locals"
    "New (syncPool q) = Some f" by simp_all
  from Borrow_vacant_item [OF Suc.prems(1,2,3) b]
  have x: "x = f (made p)" "made q = Suc (made p)" by simp_all
  have u: "[made p..<made p + Suc n] = made p # [Suc (made p)..<Suc (made p) + n]"
    by (simp add: upt_conv_Cons)
  from Suc.IH [OF q r] show ?case unfolding u x by simp
qed

lemma ReturnItem_syncPool:
  "ReturnItem E k x p = Returns p' \<Longrightarrow> syncPool p' = Put E k x (syncPool p)"
  by (auto simp: ReturnItem_def Release_def Let_def split: option.splits if_splits)

lemma return_items_cached:
  assumes "return_items E P j xs p = Returns p'"
  shows "length (cached E (syncPool p')) = length (cached E (syncPool p)) + length xs
    \<and> set (cached E (syncPool p')) = set (cached E (syncPool p)) \<union> set xs"
  using assms
proof (induction xs arbitrary: j p)
  case Nil
  then show ?case by simp
next
  case (Cons x xs)
  from Cons.prems obtain q where b: "ReturnItem E (P j) (Some x) p = Returns q"
    and r: "return_items E P (Suc j) xs q = Returns p'"
    by (rule return_items_Cons)
  from Cons.IH [OF r] show ?case
    by (simp add: ReturnItem_syncPool [OF b] cached_Put)
qed

subsection \<open>A pool without a gate stays without one\<close>







subsection \<open>The bootstrap with a context that the gate admits\<close>

text \<open>
  On a pool fresh from \<^verbatim>\<open>NewPool\<close> with \<open>initial = n > 0\<close>, and a context that
  the gate admits, \<^verbatim>\<open>SetFactory\<close> first borrows \<open>n\<close> times: the factory is
  invoked \<open>n\<close> times and \<open>n\<close> units of the gate are taken. It then returns the
  items from the last to the first, which frees every unit and leaves the \<open>n\<close>
  items in the caches. \<open>initial\<close> is set to 0, so a second \<^verbatim>\<open>SetFactory\<close> only
  replaces the factory.
\<close>

lemma SetFactory_bootstrap_admitted:
  fixes f g :: "nat \<Rightarrow> 'a" and p1 :: "'a Pool"
  assumes "initial (NewPool opts :: 'a Pool) = int n" and "0 < n"
    and "semaphore E = Legacy \<or> c \<noteq> Done"
    and "p1 = (NewPool opts)\<lparr>syncPool := (syncPool (NewPool opts))\<lparr>New := Some f\<rparr>\<rparr>"
  shows "\<exists>p2 p3.
      borrow_items E P c 0 n [] p1 = Returns (map f [0..<n], p2)
    \<and> semMax p1 = Some \<lparr>size_w = max_p p1, cur = 0\<rparr>
    \<and> semMax p2 = Some \<lparr>size_w = max_p p1, cur = int n\<rparr> \<and> made p2 = n \<and> count p2 = of_nat n
    \<and> return_items E P n (rev (map f [0..<n])) p2 = Returns p3
    \<and> semMax p3 = Some \<lparr>size_w = max_p p1, cur = 0\<rparr>
    \<and> length (cached E (syncPool p3)) = n \<and> set (cached E (syncPool p3)) = f ` {0..<n}
    \<and> SetFactory E P c f (NewPool opts) = Returns (p3\<lparr>initial := 0\<rparr>)
    \<and> SetFactory E' P' c' g (p3\<lparr>initial := 0\<rparr>)
        = Returns (p3\<lparr>initial := 0, syncPool := (syncPool p3)\<lparr>New := Some g\<rparr>\<rparr>)"
proof -
  let ?P = "NewPool opts :: 'a Pool"
  let ?s = "\<lparr>size_w = max_p p1, cur = 0\<rparr>"
  have le: "int n \<le> max_p p1" "0 < max_p p1" and i1: "initial p1 = int n"
    using assms(1,2) by (simp_all add: assms(4) NewPool_fresh)
  have s1: "semMax p1 = Some ?s" using le(2) by (simp add: assms(4) NewPool_fresh)
  have v1: "locals (syncPool p1) = no_locals" "victim (syncPool p1) = no_locals"
    "New (syncPool p1) = Some f" "made p1 = 0" "count p1 = 0"
    by (simp_all add: assms(4) NewPool_fresh)
  from borrow_items_admitted [of p1 ?s n f E c P 0 "[]"] s1 le(1) assms(3) v1(3)
  obtain items p2 where b: "borrow_items E P c 0 n [] p1 = Returns (items, p2)"
    and p2: "semMax p2 = Some (?s\<lparr>cur := int n\<rparr>)" by auto
  from borrow_items_vacant_items [OF v1(1,2,3) b] v1(4)
  have it: "items = map f [0..<n]" and m2: "made p2 = n"
    and v2: "locals (syncPool p2) = no_locals" "victim (syncPool p2) = no_locals"
    by simp_all
  have c2: "count p2 = of_nat n"
    using borrow_items_vacant [OF v1(1,2) b] v1(5) by simp
  from return_items_held [of p2 "?s\<lparr>cur := int n\<rparr>" "rev items" E P n] p2 it
  obtain p3 where r: "return_items E P n (rev items) p2 = Returns p3"
    and p3: "semMax p3 = Some ?s" by auto
  from return_items_cached [OF r] cached_vacant [OF v2, of E]
  have ca: "length (cached E (syncPool p3)) = n" "set (cached E (syncPool p3)) = f ` {0..<n}"
    by (simp_all add: it)
  have sf: "SetFactory E P c f ?P = Returns (p3\<lparr>initial := 0\<rparr>)"
    using assms(2) b r i1 by (simp add: SetFactory_def Let_def assms(4) [symmetric])
  have sf2: "SetFactory E' P' c' g (p3\<lparr>initial := 0\<rparr>)
        = Returns (p3\<lparr>initial := 0, syncPool := (syncPool p3)\<lparr>New := Some g\<rparr>\<rparr>)"
    by (simp add: SetFactory_def)
  from b p2 m2 c2 r p3 ca sf sf2 s1 show ?thesis
    unfolding it by (intro exI [of _ p2] exI [of _ p3]) simp
qed

section \<open>The claims\<close>

text \<open>
  C1. The claim: for a pool built with \<open>maxSize > 0\<close> and any sequence of Borrow and
  ReturnItem calls, also with cancelled contexts, the outstanding items never
  exceed \<open>maxSize\<close>. The code breaks it: on the pool of size 1, after one Borrow
  the gate is full, and a second Borrow whose context is done still returns
  an item, because the error of \<^verbatim>\<open>Acquire\<close> is dropped. Two items are then
  outstanding, with either release of the semaphore library. (With live
  contexts only the bound holds: \<open>outstanding_le_max_live\<close>.)
\<close>

theorem Borrow_done_ctx_exceeds_max:
  "max_p (NewPool [WithSize 1] :: nat Pool) = 1
   \<and> run (rt Legacy) [ESetFactory (on_P 0) Live id, EBorrow 0 Live, EBorrow 1 Done]
         (NewPool [WithSize 1])
       = Some (sized 1 1 None 2)
   \<and> run (rt DoneFirst) [ESetFactory (on_P 0) Live id, EBorrow 0 Live, EBorrow 1 Done]
         (NewPool [WithSize 1])
       = Some (sized 1 1 None 2)
   \<and> outstanding [ESetFactory (on_P 0) Live id, EBorrow 0 Live, EBorrow 1 Done :: nat event] = 2"
  by (simp add: pool_defs)

text \<open>
  C2. The claim: on a bounded pool, a Borrow whose context is cancelled or times
  out before a unit of the gate is free fails with a cancellation error, takes
  no unit and yields no item. The code breaks it: on the pool of size 1 with
  its one unit taken, a Borrow whose context is done, or becomes done while
  the call waits, returns worker 1, newly made. The gate is as it was, and
  the caller holds a second item and no error. This is the dropped error of
  \<^verbatim>\<open>Acquire\<close> again, as in C1.
\<close>

theorem Borrow_done_ctx_yields_item:
  "run (rt Legacy) [ESetFactory (on_P 0) Live id, EBorrow 0 Live] (NewPool [WithSize 1])
     = Some (sized 1 1 None 1)
   \<and> Borrow (rt Legacy) 1 Done (sized 1 1 None 1) = Returns (1, sized 1 1 None 2)
   \<and> Borrow (rt DoneFirst) 1 Done (sized 1 1 None 1) = Returns (1, sized 1 1 None 2)
   \<and> Borrow (rt Legacy) 1 Expiring (sized 1 1 None 1) = Returns (1, sized 1 1 None 2)
   \<and> Borrow (rt DoneFirst) 1 Expiring (sized 1 1 None 1) = Returns (1, sized 1 1 None 2)"
  by (simp add: pool_defs)

text \<open>
  C3. When the options leave \<open>max < initial\<close>, \<^verbatim>\<open>NewPool\<close> raises \<open>max\<close> to \<open>initial\<close>;
  with size 2 and bootstrap 5 the maximum is 5, and so is the size of the gate.
\<close>

theorem NewPool_promotes_max:
  "(max_p (apply_opts opts (zero_Pool :: 'a Pool)) < initial (apply_opts opts (zero_Pool :: 'a Pool))
      \<longrightarrow> max_p (NewPool opts :: 'a Pool) = initial (apply_opts opts (zero_Pool :: 'a Pool))
        \<and> initial (NewPool opts :: 'a Pool) = initial (apply_opts opts (zero_Pool :: 'a Pool)))
   \<and> max_p (NewPool [WithSize 2, WithBootstrapItems 5] :: 'a Pool) = 5
   \<and> semMax (NewPool [WithSize 2, WithBootstrapItems 5] :: 'a Pool) = Some \<lparr>size_w = 5, cur = 0\<rparr>"
  by (simp add: NewPool_def Let_def apply_opts_def zero_Pool_def NewWeighted_def)

theorem NewPool_promotes_max_witness:
  "max_p (apply_opts [WithSize 2, WithBootstrapItems 5] (zero_Pool :: nat Pool)) = 2
   \<and> initial (apply_opts [WithSize 2, WithBootstrapItems 5] (zero_Pool :: nat Pool)) = 5
   \<and> max_p (NewPool [WithSize 2, WithBootstrapItems 5] :: nat Pool) = 5
   \<and> initial (NewPool [WithSize 2, WithBootstrapItems 5] :: nat Pool) = 5"
  using NewPool_promotes_max [where ?'a = nat and opts = "[WithSize 2, WithBootstrapItems 5]"]
  by (simp add: apply_opts_def zero_Pool_def)

text \<open>
  C4. The claim: on every pool with \<open>bootstrapCount > 0\<close>, \<^verbatim>\<open>SetFactory\<close> borrows
  \<open>bootstrapCount\<close> times, each time taking a unit of the gate, returns the
  items, and sets \<open>bootstrapCount\<close> to 0. The code breaks it when the context is
  already cancelled and the semaphore looks at the context first: on the pool
  of size 10 with bootstrap 5 the five borrows make their items and take no
  unit, since the error of \<^verbatim>\<open>Acquire\<close> is dropped as in C1; the first
  ReturnItem then releases a unit that nobody holds and panics, and
  \<^verbatim>\<open>SetFactory\<close> ends with \<open>initial\<close> still 5 and the gate at \<open>- 1\<close>. (With a context
  that the gate admits the claim holds: \<open>SetFactory_bootstrap_admitted\<close>.)
\<close>

theorem SetFactory_done_ctx_panics:
  "borrow_items (rt DoneFirst) (on_P 0) Done 0 5 []
      ((NewPool [WithSize 10, WithBootstrapItems 5])
         \<lparr>syncPool := (syncPool (NewPool [WithSize 10, WithBootstrapItems 5]))\<lparr>New := Some id\<rparr>\<rparr>)
     = Returns ([0, 1, 2, 3, 4], (sized 10 0 None 5)\<lparr>initial := 5\<rparr>)
   \<and> SetFactory (rt DoneFirst) (on_P 0) Done id (NewPool [WithSize 10, WithBootstrapItems 5])
     = Panics ((sized 10 (- 1) (Some 4) 5)\<lparr>initial := 5\<rparr>)"
  by (simp add: pool_defs)

text \<open>
  C5. On a pool built with bootstrap 5, when \<^verbatim>\<open>SetFactory\<close> has returned, \<^verbatim>\<open>Count()\<close> is
  5, whatever the other options, the runtime, the processors, the context and
  the factory.
\<close>

theorem Count_after_bootstrap:
  fixes p :: "'a Pool"
  assumes "initial (NewPool opts :: 'a Pool) = 5"
    and "SetFactory E P c f (NewPool opts) = Returns p"
  shows "Count p = 5"
proof -
  let ?p1 = "(NewPool opts :: 'a Pool)\<lparr>syncPool := (syncPool (NewPool opts))\<lparr>New := Some f\<rparr>\<rparr>"
  from assms obtain items p2 p3 where
    b: "borrow_items E P c 0 5 [] ?p1 = Returns (items, p2)"
    and r: "return_items E P 5 (rev items) p2 = Returns p3" and e: "p = p3\<lparr>initial := 0\<rparr>"
    by (auto simp: SetFactory_def Let_def split: outcome.splits prod.splits)
  have "count p2 = count ?p1 + of_nat 5"
    using b by (intro borrow_items_vacant) (simp_all add: NewPool_fresh)
  moreover have "count p3 = count p2" using r by (rule return_items_count)
  ultimately show ?thesis by (simp add: e Count_def NewPool_fresh)
qed

theorem Count_after_bootstrap_witness:
  "initial (NewPool [WithBootstrapItems 5] :: nat Pool) = 5
   \<and> SetFactory (rt Legacy) (on_P 0) Live id (NewPool [WithBootstrapItems 5])
       = Returns ((sized 5 0 (Some 4) 5)
           \<lparr>syncPool := \<lparr>locals = no_locals(0 := \<lparr>private_l = Some 4, shared_l = [0, 1, 2, 3]\<rparr>),
                          victim = no_locals, victimSize = 0, New = Some id\<rparr>\<rparr>)
   \<and> Count ((sized 5 0 (Some 4) 5)
           \<lparr>syncPool := \<lparr>locals = no_locals(0 := \<lparr>private_l = Some 4, shared_l = [0, 1, 2, 3]\<rparr>),
                          victim = no_locals, victimSize = 0, New = Some id\<rparr>\<rparr>) = 5"
proof -
  have i: "initial (NewPool [WithBootstrapItems 5] :: nat Pool) = 5"
    by (simp add: pool_defs)
  have s: "SetFactory (rt Legacy) (on_P 0) Live id (NewPool [WithBootstrapItems 5])
       = Returns ((sized 5 0 (Some 4) 5)
           \<lparr>syncPool := \<lparr>locals = no_locals(0 := \<lparr>private_l = Some 4, shared_l = [0, 1, 2, 3]\<rparr>),
                          victim = no_locals, victimSize = 0, New = Some id\<rparr>\<rparr>)"
    by (simp add: pool_defs)
  from Count_after_bootstrap [OF i s] i s show ?thesis by simp
qed







text \<open>
  C8, as amended. After any sequence of events \<^verbatim>\<open>Count()\<close> is the number of items
  made and not yet reclaimed, as a 32-bit value. While fewer than \<open>2^31\<close> such
  items exist it is not negative, and while fewer than \<open>2^31 - 1\<close> exist an
  invocation of the wrapped factory raises it by one.
\<close>

theorem Count_tracks_finalizers:
  fixes p :: "'a Pool"
  assumes "run E es (NewPool opts) = Some p"
  shows "Count p = of_nat (length (finalizers p))
    \<and> (length (finalizers p) < 2 ^ 31 \<longrightarrow> 0 \<le> sint (Count p))
    \<and> (length (finalizers p) < 2 ^ 31 - 1 \<longrightarrow>
         sint (Count (snd (wrapped_New f p))) = sint (Count p) + 1)"
proof -
  have "pool_inv (max_p (NewPool opts :: 'a Pool)) p"
    using NewPool_inv assms by (rule run_inv)
  then have c: "count p = of_nat (length (finalizers p))"
    by (simp add: pool_inv_def)
  have "count (snd (wrapped_New f p)) = of_nat (Suc (length (finalizers p)))"
    by (simp add: wrapped_New_def Let_def c)
  with c show ?thesis
    using sint_count [of "length (finalizers p)"] sint_count [of "Suc (length (finalizers p))"]
    by (auto simp: Count_def)
qed

theorem Count_tracks_finalizers_witness:
  "run (rt Legacy) [ESetFactory (on_P 0) Live id, EBorrow 0 Live, EBorrow 1 Live, EReclaim 0]
       (NewPool [WithSize 5])
     = Some ((sized 5 2 None 2)\<lparr>count := 1, finalizers := [1]\<rparr>)
   \<and> length (finalizers ((sized 5 2 None 2)\<lparr>count := 1, finalizers := [1]\<rparr>)) < 2 ^ 31 - 1
   \<and> Count ((sized 5 2 None 2)\<lparr>count := 1, finalizers := [1]\<rparr>) = 1
   \<and> 0 \<le> sint (Count ((sized 5 2 None 2)\<lparr>count := 1, finalizers := [1]\<rparr>))
   \<and> sint (Count (snd (wrapped_New id ((sized 5 2 None 2)\<lparr>count := 1, finalizers := [1]\<rparr>)))) = 2"
proof -
  have r: "run (rt Legacy) [ESetFactory (on_P 0) Live id, EBorrow 0 Live, EBorrow 1 Live, EReclaim 0]
       (NewPool [WithSize 5])
     = Some ((sized 5 2 None 2)\<lparr>count := 1, finalizers := [1]\<rparr>)"
    by (simp add: pool_defs reclaim_def cached_def items_of_def)
  from Count_tracks_finalizers [OF r, of id] r show ?thesis
    by (simp add: sized_def Count_def)
qed

text \<open>
  The claim as stated fails on the unbounded pool: after \<open>2^31 - 1\<close> borrows that
  each made an item \<^verbatim>\<open>Count()\<close> is \<open>2^31 - 1\<close>, and after one more it is \<open>- 2^31\<close>,
  negative and lower than before.
\<close>

theorem Count_wraps_negative:
  "map_option (sint \<circ> Count)
     (run (rt Legacy) (ESetFactory (on_P 0) Live id # replicate 2147483647 (EBorrow 0 Live))
        (NewPool [] :: nat Pool))
     = Some 2147483647
   \<and> map_option (sint \<circ> Count)
     (run (rt Legacy) (ESetFactory (on_P 0) Live id # replicate 2147483648 (EBorrow 0 Live))
        (NewPool [] :: nat Pool))
     = Some (- 2147483648)"
proof -
  have "map_option (sint \<circ> Count)
       (run (rt Legacy) (ESetFactory (on_P 0) Live id # replicate n (EBorrow 0 Live))
          (NewPool [] :: nat Pool))
     = Some (sint (of_nat n :: 32 word))" for n
    unfolding option.map_comp [symmetric] unbounded_count by simp
  from this [of 2147483647] this [of 2147483648] show ?thesis
    by simp
qed

text \<open>
  C9. \<^verbatim>\<open>ReturnItem\<close> leaves \<open>count\<close> as it is: \<^verbatim>\<open>Count()\<close> is the same before and
  after the call.
\<close>

theorem ReturnItem_keeps_count: "ReturnItem E k x p = Returns p' \<Longrightarrow> Count p' = Count p"
  by (auto simp: ReturnItem_def Release_def Count_def Let_def split: option.splits if_splits)

theorem ReturnItem_keeps_count_witness:
  "ReturnItem (rt Legacy) 0 (Some 0) (sized 5 2 (Some 1) 3)
     = Returns ((sized 5 1 (Some 1) 3)
         \<lparr>syncPool := \<lparr>locals = no_locals(0 := \<lparr>private_l = Some 1, shared_l = [0]\<rparr>),
                        victim = no_locals, victimSize = 0, New = Some id\<rparr>\<rparr>)
   \<and> Count ((sized 5 1 (Some 1) 3)
         \<lparr>syncPool := \<lparr>locals = no_locals(0 := \<lparr>private_l = Some 1, shared_l = [0]\<rparr>),
                        victim = no_locals, victimSize = 0, New = Some id\<rparr>\<rparr>) = 3
   \<and> Count (sized 5 2 (Some 1) 3) = 3"
proof -
  have r: "ReturnItem (rt Legacy) 0 (Some 0) (sized 5 2 (Some 1) 3)
     = Returns ((sized 5 1 (Some 1) 3)
         \<lparr>syncPool := \<lparr>locals = no_locals(0 := \<lparr>private_l = Some 1, shared_l = [0]\<rparr>),
                        victim = no_locals, victimSize = 0, New = Some id\<rparr>\<rparr>)"
    by (simp add: pool_defs)
  from ReturnItem_keeps_count [OF r] r show ?thesis
    by (simp add: sized_def Count_def)
qed

text \<open>
  C10. A pool built with a bootstrap count \<open>n > 0\<close> and no size option is bounded:
  \<open>max\<close> is raised from 0 to \<open>n\<close> and the gate has \<open>n\<close> units. After \<^verbatim>\<open>SetFactory\<close>
  and \<open>n\<close> borrows that all return, the next Borrow waits.
\<close>

theorem bootstrap_only_pool_is_bounded:
  fixes f :: "nat \<Rightarrow> 'a"
  assumes "\<forall>l. WithSize l \<notin> set opts"
    and "initial (apply_opts opts (zero_Pool :: 'a Pool)) = int n" and "0 < n"
  shows "max_p (apply_opts opts (zero_Pool :: 'a Pool)) = 0
     \<and> max_p (NewPool opts :: 'a Pool) = int n
     \<and> semMax (NewPool opts :: 'a Pool) = Some \<lparr>size_w = int n, cur = 0\<rparr>
     \<and> (\<exists>p. run E (ESetFactory P Live f # replicate n (EBorrow k Live)) (NewPool opts) = Some p
            \<and> Borrow E k' Live p = Blocks)"
proof -
  have m: "max_p (apply_opts opts (zero_Pool :: 'a Pool)) = 0"
    using apply_opts_no_size [OF assms(1), of "zero_Pool :: 'a Pool"] by (simp add: zero_Pool_def)
  have 1: "max_p (NewPool opts :: 'a Pool) = int n"
    "semMax (NewPool opts :: 'a Pool) = Some \<lparr>size_w = int n, cur = 0\<rparr>"
    "initial (NewPool opts :: 'a Pool) = int n"
    using assms(2,3) by (simp_all add: NewPool_fresh m)
  from SetFactory_fresh [OF 1(3) assms(3), of E Live P f] 1(1)
  obtain q where sf: "SetFactory E P Live f (NewPool opts :: 'a Pool) = Returns q"
    and q: "semMax q = Some \<lparr>size_w = int n, cur = 0\<rparr>" "New (syncPool q) = Some f"
    by auto
  from run_Borrow_Live [OF q(1) _ q(2), of n E k]
  obtain p where r: "run E (replicate n (EBorrow k Live)) q = Some p"
    and s: "semMax p = Some \<lparr>size_w = int n, cur = int n\<rparr>"
    by auto
  have "Borrow E k' Live p = Blocks"
    using s by (intro Borrow_Live_full) auto
  with r sf 1 m show ?thesis by auto
qed

theorem bootstrap_only_pool_is_bounded_witness:
  "(\<forall>l. WithSize l \<notin> set [WithBootstrapItems 2])
   \<and> initial (apply_opts [WithBootstrapItems 2] (zero_Pool :: nat Pool)) = int 2
   \<and> max_p (NewPool [WithBootstrapItems 2] :: nat Pool) = 2
   \<and> semMax (NewPool [WithBootstrapItems 2] :: nat Pool) = Some \<lparr>size_w = 2, cur = 0\<rparr>
   \<and> (\<exists>p. run (rt Legacy) (ESetFactory (on_P 0) Live id # replicate 2 (EBorrow 0 Live))
              (NewPool [WithBootstrapItems 2] :: nat Pool) = Some p
          \<and> Borrow (rt Legacy) 1 Live p = Blocks)"
proof -
  have 1: "\<forall>l. WithSize l \<notin> set [WithBootstrapItems 2]" by simp
  have 2: "initial (apply_opts [WithBootstrapItems 2] (zero_Pool :: nat Pool)) = int 2"
    by (simp add: apply_opts_def zero_Pool_def)
  from bootstrap_only_pool_is_bounded [OF 1 2, of "rt Legacy" "on_P 0" id 0 1] 1 2 show ?thesis
    by simp
qed

end
